theory Spec2Isabelle
  imports Main "HOL-Library.Word" "HOL-Library.Multiset"
begin

section \<open>Cards\<close>

text \<open>
  \<^verbatim>\<open>type Suit uint8\<close> and \<^verbatim>\<open>type Rank uint8\<close>: both are 8-bit unsigned machine
  integers, so a card can carry any of the 256 values in either field, not only the
  named constants.
\<close>

type_synonym Suit = "8 word"
type_synonym Rank = "8 word"

definition Spade :: Suit where "Spade = 0"
definition Diamond :: Suit where "Diamond = 1"
definition Club :: Suit where "Club = 2"
definition Heart :: Suit where "Heart = 3"
definition Joker :: Suit where "Joker = 4"

definition suits :: "Suit list" where
  "suits = [Spade, Diamond, Club, Heart]"

definition Ace :: Rank where "Ace = 1"
definition Two :: Rank where "Two = 2"
definition Three :: Rank where "Three = 3"
definition Four :: Rank where "Four = 4"
definition Five :: Rank where "Five = 5"
definition Six :: Rank where "Six = 6"
definition Seven :: Rank where "Seven = 7"
definition Eight :: Rank where "Eight = 8"
definition Nine :: Rank where "Nine = 9"
definition Ten :: Rank where "Ten = 10"
definition Jack :: Rank where "Jack = 11"
definition Queen :: Rank where "Queen = 12"
definition King :: Rank where "King = 13"

definition minRank :: Rank where "minRank = Ace"
definition maxRank :: Rank where "maxRank = King"

record Card =
  Suit :: Suit
  Rank :: Rank

text \<open>The zero value of \<^verbatim>\<open>Card\<close>, which \<^verbatim>\<open>make\<close> fills a fresh array with.\<close>

definition zeroCard :: Card where
  "zeroCard = \<lparr>Suit = 0, Rank = 0\<rparr>"

subsection \<open>Rendering\<close>

text \<open>
  \<^verbatim>\<open>fmt.Sprintf\<close>, restricted to the one verb the program uses: each \<^verbatim>\<open>%s\<close> is
  replaced by the next argument, every other character is copied.
\<close>

fun Sprintf :: "string \<Rightarrow> string list \<Rightarrow> string" where
  "Sprintf [] args = []"
| "Sprintf [c] args = [c]"
| "Sprintf (c # d # fmt) args =
     (if c = CHR ''%'' \<and> d = CHR ''s''
      then (case args of
              [] \<Rightarrow> ''%!s(MISSING)'' @ Sprintf fmt []
            | a # rest \<Rightarrow> a @ Sprintf fmt rest)
      else c # Sprintf (d # fmt) args)"

text \<open>
  \<^verbatim>\<open>Card.String\<close>. The methods \<^verbatim>\<open>Suit.String\<close> and \<^verbatim>\<open>Rank.String\<close> are generated
  by \<^verbatim>\<open>stringer\<close> and are not part of the sources, so they are the parameters
  \<open>suitString\<close> and \<open>rankString\<close>.
\<close>

definition String :: "(Suit \<Rightarrow> string) \<Rightarrow> (Rank \<Rightarrow> string) \<Rightarrow> Card \<Rightarrow> string" where
  "String suitString rankString c =
     (if Suit c = Joker then suitString (Suit c)
      else Sprintf ''%s of %ss'' [rankString (Rank c), suitString (Suit c)])"

subsection \<open>Absolute rank\<close>

text \<open>\<^verbatim>\<open>int(c.Suit) * int(maxRank) + int(c.Rank)\<close>: at most 255 * 13 + 255, no overflow.\<close>

definition absRank :: "Card \<Rightarrow> int" where
  "absRank c = uint (Suit c) * uint maxRank + uint (Rank c)"

section \<open>Slices and their backing arrays\<close>

text \<open>
  A Go slice is a header (pointer, length, capacity) over a backing array that other
  slices may share. The heap maps addresses to backing arrays; \<open>nxt\<close> is the next
  unused address. \<open>rng\<close> is the state of the package-level generator
  \<^verbatim>\<open>shuffleRand\<close>. No slice of this program is ever re-sliced, so every header
  points at the start of its array.
\<close>

record slice =
  ptr :: nat
  len :: nat
  cap :: nat

record heap =
  arrays :: "nat \<Rightarrow> Card list"
  nxt :: nat
  rng :: nat

text \<open>The nil slice (\<^verbatim>\<open>var cards []Card\<close>).\<close>

definition nil :: slice where
  "nil = \<lparr>ptr = 0, len = 0, cap = 0\<rparr>"

text \<open>The cards a slice shows in a heap.\<close>

definition cards_of :: "heap \<Rightarrow> slice \<Rightarrow> Card list" where
  "cards_of h s = take (len s) (arrays h (ptr s))"

text \<open>
  A slice header is well formed in a heap when its length is within its capacity, its
  capacity within the backing array, and the array (if there is any room in it) has
  been allocated.
\<close>

definition valid :: "heap \<Rightarrow> slice \<Rightarrow> bool" where
  "valid h s = (len s \<le> cap s \<and> cap s \<le> length (arrays h (ptr s)) \<and>
     (cap s = 0 \<or> ptr s < nxt h))"

text \<open>\<^verbatim>\<open>s[i]\<close> as an expression: a run-time panic when \<open>i\<close> is out of range.\<close>

definition index :: "heap \<Rightarrow> slice \<Rightarrow> nat \<Rightarrow> Card option" where
  "index h s i = (if i < len s then Some (arrays h (ptr s) ! i) else None)"

text \<open>\<^verbatim>\<open>s[i] = c\<close>: a run-time panic when \<open>i\<close> is out of range.\<close>

definition store :: "heap \<Rightarrow> slice \<Rightarrow> nat \<Rightarrow> Card \<Rightarrow> heap option" where
  "store h s i c =
     (if i < len s
      then Some (h\<lparr>arrays := (arrays h)(ptr s := (arrays h (ptr s))[i := c])\<rparr>)
      else None)"

text \<open>\<^verbatim>\<open>make([]Card, n)\<close>: a fresh array of \<open>n\<close> zero cards.\<close>

definition make :: "nat \<Rightarrow> heap \<Rightarrow> slice \<times> heap" where
  "make n h =
     (\<lparr>ptr = nxt h, len = n, cap = n\<rparr>,
      h\<lparr>arrays := (arrays h)(nxt h := replicate n zeroCard), nxt := Suc (nxt h)\<rparr>)"

text \<open>
  \<^verbatim>\<open>append(s, xs...)\<close>. When the capacity suffices the new elements are written
  into the backing array of \<open>s\<close>; otherwise a new array is allocated that holds the
  old elements and the new ones. How much larger than needed the new array is, is the
  runtime's choice: the parameter \<open>grow\<close> (old capacity, needed length) proposes a
  capacity, and the array has at least the needed length.
\<close>

definition appendSlice ::
  "(nat \<Rightarrow> nat \<Rightarrow> nat) \<Rightarrow> slice \<Rightarrow> Card list \<Rightarrow> heap \<Rightarrow> slice \<times> heap" where
  "appendSlice grow s xs h =
     (let n = len s + length xs; old = arrays h (ptr s) in
      if n \<le> cap s
      then (s\<lparr>len := n\<rparr>,
            h\<lparr>arrays := (arrays h)(ptr s := take (len s) old @ xs @ drop n old)\<rparr>)
      else
        (let c = max n (grow (cap s) n) in
         (\<lparr>ptr = nxt h, len = n, cap = c\<rparr>,
          h\<lparr>arrays := (arrays h)(nxt h := take (len s) old @ xs @ replicate (c - n) zeroCard),
            nxt := Suc (nxt h)\<rparr>)))"

text \<open>
  A transform is a Go function \<^verbatim>\<open>func([]Card) []Card\<close>: it runs in a heap and either
  panics (\<open>None\<close>) or returns a slice and the heap it leaves behind.
\<close>

type_synonym transform = "slice \<Rightarrow> heap \<Rightarrow> (slice \<times> heap) option"

text \<open>The cards of the deck a call returned.\<close>

definition result_cards :: "(slice \<times> heap) option \<Rightarrow> Card list option" where
  "result_cards r = map_option (\<lambda>(s, h). cards_of h s) r"

section \<open>Building the deck\<close>

text \<open>The inner loop of \<^verbatim>\<open>New\<close>: \<^verbatim>\<open>for rank := minRank; rank <= maxRank; rank++\<close>.\<close>

function rank_loop ::
  "(nat \<Rightarrow> nat \<Rightarrow> nat) \<Rightarrow> Suit \<Rightarrow> Rank \<Rightarrow> slice \<Rightarrow> heap \<Rightarrow> slice \<times> heap" where
  "rank_loop grow suit rank cards h =
     (if rank \<le> maxRank
      then (case appendSlice grow cards [\<lparr>Suit = suit, Rank = rank\<rparr>] h of
              (cards', h') \<Rightarrow> rank_loop grow suit (rank + 1) cards' h')
      else (cards, h))"
  by pat_completeness auto
termination
proof (relation "measure (\<lambda>(grow, suit, rank, cards, h). 14 - unat rank)")
  show "wf (measure (\<lambda>(grow, suit, rank, cards, h). 14 - unat rank))"
    by simp
next
  fix grow :: "nat \<Rightarrow> nat \<Rightarrow> nat" and suit rank :: "8 word" and cards h x y
  assume "rank \<le> maxRank"
  then have "unat rank \<le> 13" "unat (rank + 1) = Suc (unat rank)"
    by (simp_all add: maxRank_def King_def word_le_nat_alt unat_word_ariths)
  then show "((grow, suit, rank + 1, y, x), (grow, suit, rank, cards, h))
      \<in> measure (\<lambda>(grow, suit, rank, cards, h). 14 - unat rank)"
    by simp
qed

text \<open>The outer loop: \<^verbatim>\<open>for _, suit := range suits\<close>.\<close>

fun suit_loop ::
  "(nat \<Rightarrow> nat \<Rightarrow> nat) \<Rightarrow> Suit list \<Rightarrow> slice \<Rightarrow> heap \<Rightarrow> slice \<times> heap" where
  "suit_loop grow [] cards h = (cards, h)"
| "suit_loop grow (suit # rest) cards h =
     (case rank_loop grow suit minRank cards h of
        (cards', h') \<Rightarrow> suit_loop grow rest cards' h')"

text \<open>\<^verbatim>\<open>for _, option := range options { cards = option(cards) }\<close>.\<close>

fun apply_options :: "transform list \<Rightarrow> slice \<Rightarrow> heap \<Rightarrow> (slice \<times> heap) option" where
  "apply_options [] cards h = Some (cards, h)"
| "apply_options (option # rest) cards h =
     (case option cards h of
        None \<Rightarrow> None
      | Some (cards', h') \<Rightarrow> apply_options rest cards' h')"

definition New ::
  "(nat \<Rightarrow> nat \<Rightarrow> nat) \<Rightarrow> transform list \<Rightarrow> heap \<Rightarrow> (slice \<times> heap) option" where
  "New grow options h =
     (case suit_loop grow suits nil h of
        (cards, h') \<Rightarrow> apply_options options cards h')"

section \<open>Sorting\<close>

text \<open>
  \<^verbatim>\<open>Less(cards)\<close> returns a closure over the slice header. The closure reads the
  backing array when it is called, so it sees the swaps the sort has made so far; an
  index out of range panics.
\<close>

type_synonym lessFn = "heap \<Rightarrow> nat \<Rightarrow> nat \<Rightarrow> bool option"

definition Less :: "slice \<Rightarrow> lessFn" where
  "Less cards h i j =
     (case index h cards i of
        None \<Rightarrow> None
      | Some a \<Rightarrow>
          (case index h cards j of
             None \<Rightarrow> None
           | Some b \<Rightarrow> Some (absRank a < absRank b)))"

text \<open>
  \<^verbatim>\<open>sort.Slice\<close> belongs to the Go standard library, not to this package, so the
  transforms take it as the parameter \<open>sortSlice\<close>: given the less closure and the
  slice, it rearranges the backing array in place and returns the heap it leaves
  (\<open>None\<close> when the closure panics).
\<close>

type_synonym sorter = "lessFn \<Rightarrow> slice \<Rightarrow> heap \<Rightarrow> heap option"

definition DefaultSort :: "sorter \<Rightarrow> transform" where
  "DefaultSort sortSlice cards h =
     (case sortSlice (Less cards) cards h of
        None \<Rightarrow> None
      | Some h' \<Rightarrow> Some (cards, h'))"

definition Sort :: "sorter \<Rightarrow> (slice \<Rightarrow> lessFn) \<Rightarrow> transform" where
  "Sort sortSlice lessf cards h =
     (case sortSlice (lessf cards) cards h of
        None \<Rightarrow> None
      | Some h' \<Rightarrow> Some (cards, h'))"

subsection \<open>What the library promises of \<open>sort.Slice\<close>\<close>

text \<open>
  The less function must describe a transitive ordering in the sense of
  \<^verbatim>\<open>sort.Interface\<close>: if \<open>a\<close> is less than \<open>b\<close> and \<open>b\<close> less than \<open>c\<close> then \<open>a\<close>
  is less than \<open>c\<close>, and likewise for "not less". Together with irreflexivity this is a
  strict weak ordering.
\<close>

definition strict_weak :: "(Card \<Rightarrow> Card \<Rightarrow> bool) \<Rightarrow> bool" where
  "strict_weak lt =
     ((\<forall>a. \<not> lt a a) \<and>
      (\<forall>a b c. lt a b \<and> lt b c \<longrightarrow> lt a c) \<and>
      (\<forall>a b c. \<not> lt a b \<and> \<not> lt b c \<longrightarrow> \<not> lt a c))"

text \<open>The closure \<open>lessf\<close> compares the elements of slice \<open>s\<close> by \<open>lt\<close>, in every heap.\<close>

definition compares_by :: "lessFn \<Rightarrow> slice \<Rightarrow> (Card \<Rightarrow> Card \<Rightarrow> bool) \<Rightarrow> bool" where
  "compares_by lessf s lt =
     (\<forall>h i j. i < len s \<and> j < len s \<longrightarrow>
        lessf h i j = Some (lt (arrays h (ptr s) ! i) (arrays h (ptr s) ! j)))"

text \<open>
  For such a closure, \<^verbatim>\<open>sort.Slice\<close> returns, and what it leaves is the same heap
  except that the first \<open>len s\<close> elements of the backing array of \<open>s\<close> have been
  rearranged into an order in which no later element is less than an earlier one. The
  sort is not stable, so nothing more is promised about equal elements.
\<close>

definition sort_Slice_spec :: "sorter \<Rightarrow> bool" where
  "sort_Slice_spec sortSlice =
     (\<forall>lessf s h lt. valid h s \<and> strict_weak lt \<and> compares_by lessf s lt \<longrightarrow>
        (\<exists>ys. mset ys = mset (cards_of h s) \<and>
              sorted_wrt (\<lambda>a b. \<not> lt b a) ys \<and>
              sortSlice lessf s h =
                Some (h\<lparr>arrays := (arrays h)(ptr s := ys @ drop (len s) (arrays h (ptr s)))\<rparr>)))"

subsection \<open>Insertion sort\<close>

text \<open>
  The insertion sort of the standard library (\<^verbatim>\<open>insertionSortLessFunc\<close>), which
  is all that \<^verbatim>\<open>sort.Slice\<close> runs on a short slice (at most 12 elements in the
  pattern-defeating quicksort of Go 1.19 and later; at most 6 in the quicksort
  before it):
  \<^verbatim>\<open>
  for i := a + 1; i < b; i++ {
    for j := i; j > a && less(j, j-1); j-- {
      swap(j, j-1)
    }
  }\<close>
  with \<open>a = 0\<close> and \<open>b = len s\<close>.
\<close>

definition swap :: "slice \<Rightarrow> nat \<Rightarrow> nat \<Rightarrow> heap \<Rightarrow> heap" where
  "swap s i j h =
     (let a = arrays h (ptr s) in
      h\<lparr>arrays := (arrays h)(ptr s := a[i := a ! j, j := a ! i])\<rparr>)"

fun insert_loop :: "lessFn \<Rightarrow> slice \<Rightarrow> nat \<Rightarrow> heap \<Rightarrow> heap option" where
  "insert_loop lessf s 0 h = Some h"
| "insert_loop lessf s (Suc j) h =
     (case lessf h (Suc j) j of
        None \<Rightarrow> None
      | Some False \<Rightarrow> Some h
      | Some True \<Rightarrow> insert_loop lessf s j (swap s (Suc j) j h))"

function insertion_loop :: "lessFn \<Rightarrow> slice \<Rightarrow> nat \<Rightarrow> heap \<Rightarrow> heap option" where
  "insertion_loop lessf s i h =
     (if i < len s
      then (case insert_loop lessf s i h of
              None \<Rightarrow> None
            | Some h' \<Rightarrow> insertion_loop lessf s (Suc i) h')
      else Some h)"
  by pat_completeness auto
termination
  by (relation "measure (\<lambda>(lessf, s, i, h). len s - i)") auto

definition insertionSort :: sorter where
  "insertionSort lessf s h = insertion_loop lessf s 1 h"

section \<open>Shuffling\<close>

text \<open>
  \<^verbatim>\<open>shuffleRand.Perm(n)\<close> belongs to \<^verbatim>\<open>math/rand\<close>: the parameter \<open>Perm\<close> maps the
  generator's state and \<open>n\<close> to the slice of integers it returns and the generator's
  next state. The loop \<^verbatim>\<open>for i, j := range perm { ret[i] = cards[j] }\<close> panics when
  an index is out of range.
\<close>

type_synonym permFn = "nat \<Rightarrow> nat \<Rightarrow> nat list \<times> nat"

fun shuffle_loop :: "nat \<Rightarrow> nat list \<Rightarrow> slice \<Rightarrow> slice \<Rightarrow> heap \<Rightarrow> heap option" where
  "shuffle_loop i [] cards ret h = Some h"
| "shuffle_loop i (j # perm) cards ret h =
     (case index h cards j of
        None \<Rightarrow> None
      | Some c \<Rightarrow>
          (case store h ret i c of
             None \<Rightarrow> None
           | Some h' \<Rightarrow> shuffle_loop (Suc i) perm cards ret h'))"

definition Shuffle :: "permFn \<Rightarrow> transform" where
  "Shuffle Perm cards h =
     (case make (len cards) h of
        (ret, h1) \<Rightarrow>
          (case Perm (rng h1) (len cards) of
             (perm, g) \<Rightarrow>
               (case shuffle_loop 0 perm cards ret (h1\<lparr>rng := g\<rparr>) of
                  None \<Rightarrow> None
                | Some h2 \<Rightarrow> Some (ret, h2))))"

text \<open>What \<^verbatim>\<open>math/rand\<close> promises: a permutation of the integers \<open>0, ..., n - 1\<close>.\<close>

definition Perm_spec :: "permFn \<Rightarrow> bool" where
  "Perm_spec Perm = (\<forall>g n. mset (fst (Perm g n)) = mset [0..<n])"

section \<open>Jokers, Filter, Deck\<close>

text \<open>
  \<^verbatim>\<open>for i := 0; i < n; i++\<close> with \<open>i\<close> and \<open>n\<close> of type \<^verbatim>\<open>int\<close>; the conversion
  \<^verbatim>\<open>Rank(i)\<close> to \<^verbatim>\<open>uint8\<close> keeps the low 8 bits of \<open>i\<close>.
\<close>

function jokers_loop ::
  "(nat \<Rightarrow> nat \<Rightarrow> nat) \<Rightarrow> int \<Rightarrow> int \<Rightarrow> slice \<Rightarrow> heap \<Rightarrow> slice \<times> heap" where
  "jokers_loop grow n i cards h =
     (if i < n
      then (case appendSlice grow cards [\<lparr>Suit = Joker, Rank = word_of_int i\<rparr>] h of
              (cards', h') \<Rightarrow> jokers_loop grow n (i + 1) cards' h')
      else (cards, h))"
  by pat_completeness auto
termination
  by (relation "measure (\<lambda>(grow, n, i, cards, h). nat (n - i))") auto

definition Jokers :: "(nat \<Rightarrow> nat \<Rightarrow> nat) \<Rightarrow> int \<Rightarrow> transform" where
  "Jokers grow n cards h = Some (jokers_loop grow n 0 cards h)"

text \<open>
  \<^verbatim>\<open>for _, c := range cards\<close>: the header of \<open>cards\<close> is read once, each element when
  its turn comes.
\<close>

function filter_loop ::
  "(nat \<Rightarrow> nat \<Rightarrow> nat) \<Rightarrow> (Card \<Rightarrow> bool) \<Rightarrow> slice \<Rightarrow> nat \<Rightarrow> slice \<Rightarrow> heap \<Rightarrow> slice \<times> heap" where
  "filter_loop grow f cards i ret h =
     (if i < len cards
      then (let c = arrays h (ptr cards) ! i in
            if \<not> f c
            then (case appendSlice grow ret [c] h of
                    (ret', h') \<Rightarrow> filter_loop grow f cards (Suc i) ret' h')
            else filter_loop grow f cards (Suc i) ret h)
      else (ret, h))"
  by pat_completeness auto
termination
  by (relation "measure (\<lambda>(grow, f, cards, i, ret, h). len cards - i)") auto

definition Filter :: "(nat \<Rightarrow> nat \<Rightarrow> nat) \<Rightarrow> (Card \<Rightarrow> bool) \<Rightarrow> transform" where
  "Filter grow f cards h = Some (filter_loop grow f cards 0 nil h)"

function deck_loop ::
  "(nat \<Rightarrow> nat \<Rightarrow> nat) \<Rightarrow> int \<Rightarrow> int \<Rightarrow> slice \<Rightarrow> slice \<Rightarrow> heap \<Rightarrow> slice \<times> heap" where
  "deck_loop grow n i cards ret h =
     (if i < n
      then (case appendSlice grow ret (cards_of h cards) h of
              (ret', h') \<Rightarrow> deck_loop grow n (i + 1) cards ret' h')
      else (ret, h))"
  by pat_completeness auto
termination
  by (relation "measure (\<lambda>(grow, n, i, cards, ret, h). nat (n - i))") auto

definition Deck :: "(nat \<Rightarrow> nat \<Rightarrow> nat) \<Rightarrow> int \<Rightarrow> transform" where
  "Deck grow n cards h = Some (deck_loop grow n 0 cards nil h)"

section \<open>The deck in the words of the specification\<close>

text \<open>
  One card for every pair of a standard suit and a rank, suit-major (Spades, Diamonds,
  Clubs, Hearts) and rank-minor (Ace to King).
\<close>

definition ranks :: "Rank list" where
  "ranks = [Ace, Two, Three, Four, Five, Six, Seven, Eight, Nine, Ten, Jack, Queen, King]"

definition standard_deck :: "Card list" where
  "standard_deck =
     concat (map (\<lambda>suit. map (\<lambda>rank. \<lparr>Suit = suit, Rank = rank\<rparr>) ranks)
       [Spade, Diamond, Club, Heart])"

section \<open>Frames\<close>

text \<open>
  A slice is fresh since a watermark \<open>b\<close> when its array was allocated at address
  \<open>b\<close> or later, or it has no array at all; two heaps are the same below \<open>b\<close> when
  every array allocated before \<open>b\<close> is the same in both.
\<close>

definition fresh_since :: "nat \<Rightarrow> slice \<Rightarrow> bool" where
  "fresh_since b s = (cap s = 0 \<or> b \<le> ptr s)"

definition same_below :: "nat \<Rightarrow> heap \<Rightarrow> heap \<Rightarrow> bool" where
  "same_below b h h' = (\<forall>p. p < b \<longrightarrow> arrays h' p = arrays h p)"


text \<open>The cards that the slice \<open>cards\<close>, handed to a call, shows after the call has returned.\<close>

definition cards_after :: "slice \<Rightarrow> (slice \<times> heap) option \<Rightarrow> Card list option" where
  "cards_after cards r = map_option (\<lambda>(ret, h'). cards_of h' cards) r"

section \<open>Concrete inputs\<close>

text \<open>
  A heap that holds one array with the given cards, the slice over all of that array,
  a growth policy for \<open>append\<close> (doubling), and a generator whose permutation is the
  reversal.
\<close>

definition heap_with :: "Card list \<Rightarrow> heap" where
  "heap_with xs = \<lparr>arrays = (\<lambda>p. [])(1 := xs), nxt = 2, rng = 0\<rparr>"

definition whole :: "Card list \<Rightarrow> slice" where
  "whole xs = \<lparr>ptr = 1, len = length xs, cap = length xs\<rparr>"


definition grow_double :: "nat \<Rightarrow> nat \<Rightarrow> nat" where
  "grow_double old needed = 2 * old"

definition rev_Perm :: permFn where
  "rev_Perm g n = (rev [0..<n], Suc g)"

section \<open>Facts about slices\<close>

lemma nil_valid: "valid h nil" "cards_of h nil = []"
  by (simp_all add: valid_def nil_def cards_of_def)

lemma appendSlice_cards:
  assumes "valid h s" and "appendSlice grow s xs h = (s', h')"
  shows "cards_of h' s' = cards_of h s @ xs"
  using assms
  by (auto simp: appendSlice_def valid_def cards_of_def Let_def split: if_splits)

lemma appendSlice_valid:
  assumes "valid h s" and "appendSlice grow s xs h = (s', h')"
  shows "valid h' s'"
  using assms
  by (auto simp: appendSlice_def valid_def Let_def split: if_splits)

lemma same_below_refl: "same_below b h h"
  by (simp add: same_below_def)

lemma same_below_trans: "same_below b h h1 \<Longrightarrow> same_below b h1 h2 \<Longrightarrow> same_below b h h2"
  by (simp add: same_below_def)

lemma same_below_cards:
  assumes "valid h t" and "same_below (nxt h) h h'"
  shows "cards_of h' t = cards_of h t"
  using assms by (auto simp: valid_def same_below_def cards_of_def)

lemma same_below_array:
  assumes "valid h t" and "same_below (nxt h) h h'" and "i < len t"
  shows "arrays h' (ptr t) ! i = cards_of h t ! i"
  using assms by (auto simp: valid_def same_below_def cards_of_def)

lemma appendSlice_fresh:
  assumes "valid h s" and "fresh_since b s" and "b \<le> nxt h"
    and "appendSlice grow s xs h = (s', h')"
  shows "fresh_since b s'" and "same_below b h h'" and "nxt h \<le> nxt h'" and "rng h' = rng h"
  using assms
  by (auto simp: appendSlice_def valid_def fresh_since_def same_below_def Let_def
      split: if_splits)

lemma whole_valid: "valid (heap_with xs) (whole xs)"
  by (simp add: valid_def heap_with_def whole_def)

lemma whole_cards: "cards_of (heap_with xs) (whole xs) = xs"
  by (simp add: cards_of_def heap_with_def whole_def)

lemma valid_length: "valid h s \<Longrightarrow> length (cards_of h s) = len s"
  by (simp add: valid_def cards_of_def)

section \<open>The deck that \<open>New\<close> builds\<close>

lemma rank_loop_cards:
  assumes "valid h cards" and "rank_loop grow suit rank cards h = (cards', h')"
  shows "valid h' cards' \<and>
    cards_of h' cards' =
      cards_of h cards @ map (\<lambda>r. \<lparr>Suit = suit, Rank = of_nat r\<rparr>) [unat rank..<14]"
  using assms
proof (induction grow suit rank cards h rule: rank_loop.induct)
  case (1 grow suit rank cards h)
  show ?case
  proof (cases "rank \<le> maxRank")
    case True
    obtain c1 h1 where app: "appendSlice grow cards [\<lparr>Suit = suit, Rank = rank\<rparr>] h = (c1, h1)"
      by (cases "appendSlice grow cards [\<lparr>Suit = suit, Rank = rank\<rparr>] h")
    have v1: "valid h1 c1"
      using appendSlice_valid [OF "1.prems"(1) app] .
    have k1: "cards_of h1 c1 = cards_of h cards @ [\<lparr>Suit = suit, Rank = rank\<rparr>]"
      using appendSlice_cards [OF "1.prems"(1) app] .
    have rec: "rank_loop grow suit (rank + 1) c1 h1 = (cards', h')"
      using "1.prems"(2) True app by (subst (asm) rank_loop.simps) simp
    have ih: "valid h' cards' \<and>
      cards_of h' cards' =
        cards_of h1 c1 @ map (\<lambda>r. \<lparr>Suit = suit, Rank = of_nat r\<rparr>) [unat (rank + 1)..<14]"
      using "1.IH" [OF True app [symmetric] v1 rec] .
    from True have u: "unat rank \<le> 13" "unat (rank + 1) = Suc (unat rank)"
      by (simp_all add: maxRank_def King_def word_le_nat_alt unat_word_ariths)
    then have "[unat rank..<14] = unat rank # [unat (rank + 1)..<14]"
      by (simp add: upt_conv_Cons)
    with ih k1 show ?thesis by simp
  next
    case False
    then have "\<not> unat rank \<le> 13"
      by (simp add: maxRank_def King_def word_le_nat_alt)
    with False "1.prems" show ?thesis
      by (subst (asm) rank_loop.simps) auto
  qed
qed

lemma suit_loop_cards:
  assumes "valid h cards" and "suit_loop grow ss cards h = (cards', h')"
  shows "valid h' cards' \<and>
    cards_of h' cards' =
      cards_of h cards @
      concat (map (\<lambda>suit. map (\<lambda>r. \<lparr>Suit = suit, Rank = of_nat r\<rparr>) [1..<14]) ss)"
  using assms
proof (induction ss arbitrary: cards h)
  case Nil
  then show ?case by simp
next
  case (Cons suit ss)
  obtain c1 h1 where r: "rank_loop grow suit minRank cards h = (c1, h1)"
    by (cases "rank_loop grow suit minRank cards h")
  from rank_loop_cards [OF Cons.prems(1) r]
  have 1: "valid h1 c1"
    and 2: "cards_of h1 c1 = cards_of h cards @ map (\<lambda>r. \<lparr>Suit = suit, Rank = of_nat r\<rparr>) [1..<14]"
    by (simp_all add: minRank_def Ace_def)
  from Cons.prems(2) r have "suit_loop grow ss c1 h1 = (cards', h')"
    by simp
  from Cons.IH [OF 1 this] 2 show ?case by simp
qed

lemma ranks_upt: "ranks = map of_nat [1..<14]"
  unfolding ranks_def Ace_def Two_def Three_def Four_def Five_def Six_def Seven_def
    Eight_def Nine_def Ten_def Jack_def Queen_def King_def
  by (simp add: upt_conv_Cons)

lemma standard_deck_length: "length standard_deck = 52"
  by (simp add: standard_deck_def ranks_def)

lemmas name_defs =
  Ace_def Two_def Three_def Four_def Five_def Six_def Seven_def Eight_def Nine_def
  Ten_def Jack_def Queen_def King_def Spade_def Diamond_def Club_def Heart_def

lemma standard_deck_distinct: "distinct standard_deck"
  unfolding standard_deck_def ranks_def name_defs
  by simp

lemma standard_deck_set:
  "set standard_deck =
     (\<lambda>(suit, rank). \<lparr>Suit = suit, Rank = rank\<rparr>) `
       ({Spade, Diamond, Club, Heart} \<times>
        {Ace, Two, Three, Four, Five, Six, Seven, Eight, Nine, Ten, Jack, Queen, King})"
  unfolding standard_deck_def ranks_def
  by (simp add: image_Un)

lemma absRank_standard_deck: "map absRank standard_deck = map int [1..<53]"
  unfolding standard_deck_def ranks_def name_defs
  by (simp add: absRank_def maxRank_def King_def upt_conv_Cons)

text \<open>
  C1. \<open>New\<close> with no transform returns, from any heap and whatever the growth policy of
  \<open>append\<close>, a deck of exactly 52 cards: one card for every pair of a standard suit
  and a rank from Ace to King, no card twice, Spades first, then Diamonds, Clubs and
  Hearts, and Ace to King within each suit.
\<close>

theorem New_without_transforms:
  "result_cards (New grow [] h) = Some standard_deck \<and>
   length standard_deck = 52 \<and>
   distinct standard_deck \<and>
   set standard_deck =
     (\<lambda>(suit, rank). \<lparr>Suit = suit, Rank = rank\<rparr>) `
       ({Spade, Diamond, Club, Heart} \<times>
        {Ace, Two, Three, Four, Five, Six, Seven, Eight, Nine, Ten, Jack, Queen, King})"
proof -
  obtain c1 h1 where s: "suit_loop grow suits nil h = (c1, h1)"
    by (cases "suit_loop grow suits nil h")
  from suit_loop_cards [OF nil_valid(1) s]
  have "cards_of h1 c1 = standard_deck"
    by (simp add: nil_valid standard_deck_def ranks_upt suits_def comp_def)
  with s have "result_cards (New grow [] h) = Some standard_deck"
    by (simp add: New_def result_cards_def)
  then show ?thesis
    using standard_deck_length standard_deck_distinct standard_deck_set by simp
qed

section \<open>Rendering a card\<close>

text \<open>
  C9. The rendering of a card is the bare suit name when its suit is Joker, and
  otherwise the rank name, the word "of" between spaces, and the suit name followed by
  "s"; in particular for every card of the four standard suits.
\<close>

theorem String_rendering:
  "String suitString rankString c =
     (if Suit c = Joker then suitString (Suit c)
      else rankString (Rank c) @ '' of '' @ suitString (Suit c) @ ''s'')"
  by (simp add: String_def)

section \<open>The loops of Jokers, Filter and Deck\<close>

lemma map_upt_Suc_Cons: "map f [0..<Suc m] = f 0 # map (\<lambda>k. f (Suc k)) [0..<m]"
  by (simp add: upt_conv_Cons map_Suc_upt [symmetric] comp_def del: upt_Suc)

lemma jokers_loop_cards:
  assumes "valid h cards" and "jokers_loop grow n i cards h = (cards', h')"
  shows "valid h' cards' \<and>
    cards_of h' cards' =
      cards_of h cards @
      map (\<lambda>k. \<lparr>Suit = Joker, Rank = word_of_int (i + int k)\<rparr>) [0..<nat (n - i)]"
  using assms
proof (induction grow n i cards h rule: jokers_loop.induct)
  case (1 grow n i cards h)
  show ?case
  proof (cases "i < n")
    case True
    obtain c1 h1 where
      app: "appendSlice grow cards [\<lparr>Suit = Joker, Rank = word_of_int i\<rparr>] h = (c1, h1)"
      by (cases "appendSlice grow cards [\<lparr>Suit = Joker, Rank = word_of_int i\<rparr>] h")
    note v1 = appendSlice_valid [OF "1.prems"(1) app]
    note k1 = appendSlice_cards [OF "1.prems"(1) app]
    have rec: "jokers_loop grow n (i + 1) c1 h1 = (cards', h')"
      using "1.prems"(2) True app by (subst (asm) jokers_loop.simps) simp
    note ih = "1.IH" [OF True app [symmetric] v1 rec]
    from True have "nat (n - i) = Suc (nat (n - (i + 1)))"
      by simp
    then have "map (\<lambda>k. \<lparr>Suit = Joker, Rank = word_of_int (i + int k)\<rparr>) [0..<nat (n - i)] =
        \<lparr>Suit = Joker, Rank = word_of_int i\<rparr> #
        map (\<lambda>k. \<lparr>Suit = Joker, Rank = word_of_int (i + 1 + int k)\<rparr>) [0..<nat (n - (i + 1))]"
      by (simp only: map_upt_Suc_Cons) (simp add: algebra_simps)
    with ih k1 show ?thesis by simp
  next
    case False
    with "1.prems" show ?thesis
      by (subst (asm) jokers_loop.simps) auto
  qed
qed


lemma filter_loop_cards:
  assumes "valid h0 cards" and "valid h ret" and "fresh_since (nxt h0) ret"
    and "same_below (nxt h0) h0 h" and "nxt h0 \<le> nxt h"
    and "filter_loop grow f cards i ret h = (ret', h')"
  shows "valid h' ret' \<and>
    cards_of h' ret' = cards_of h ret @ filter (\<lambda>c. \<not> f c) (drop i (cards_of h0 cards)) \<and>
    same_below (nxt h0) h0 h' \<and> nxt h0 \<le> nxt h' \<and> rng h' = rng h"
  using assms
proof (induction grow f cards i ret h rule: filter_loop.induct)
  case (1 grow f cards i ret h)
  show ?case
  proof (cases "i < len cards")
    case True
    define c where "c = arrays h (ptr cards) ! i"
    have c: "c = cards_of h0 cards ! i"
      unfolding c_def using same_below_array [OF "1.prems"(1,4) True] .
    have len: "length (cards_of h0 cards) = len cards"
      using "1.prems"(1) by (simp add: cards_of_def valid_def)
    have dr: "drop i (cards_of h0 cards) = c # drop (Suc i) (cards_of h0 cards)"
      using True len c by (simp add: Cons_nth_drop_Suc)
    show ?thesis
    proof (cases "f c")
      case True
      with \<open>i < len cards\<close> "1.prems"(6)
      have rec: "filter_loop grow f cards (Suc i) ret h = (ret', h')"
        by (subst (asm) filter_loop.simps) (simp add: c_def)
      from "1.IH"(2) [OF \<open>i < len cards\<close> c_def _ "1.prems"(1,2,3,4,5) rec] True dr
      show ?thesis by simp
    next
      case False
      obtain r1 h1 where app: "appendSlice grow ret [c] h = (r1, h1)"
        by (cases "appendSlice grow ret [c] h")
      with False \<open>i < len cards\<close> "1.prems"(6)
      have rec: "filter_loop grow f cards (Suc i) r1 h1 = (ret', h')"
        by (subst (asm) filter_loop.simps) (simp add: c_def)
      note v1 = appendSlice_valid [OF "1.prems"(2) app]
      note k1 = appendSlice_cards [OF "1.prems"(2) app]
      note fr = appendSlice_fresh [OF "1.prems"(2,3,5) app]
      have sb: "same_below (nxt h0) h0 h1"
        using same_below_trans [OF "1.prems"(4) fr(2)] .
      have nx: "nxt h0 \<le> nxt h1"
        using "1.prems"(5) fr(3) by simp
      from "1.IH"(1) [OF \<open>i < len cards\<close> c_def _ app [symmetric] "1.prems"(1) v1 fr(1) sb nx rec]
        False k1 dr fr(4)
      show ?thesis by simp
    qed
  next
    case False
    moreover have "length (cards_of h0 cards) = len cards"
      using "1.prems"(1) by (simp add: cards_of_def valid_def)
    ultimately show ?thesis
      using "1.prems" by (subst (asm) filter_loop.simps) auto
  qed
qed

lemma deck_loop_cards:
  assumes "valid h0 cards" and "valid h ret" and "fresh_since (nxt h0) ret"
    and "same_below (nxt h0) h0 h" and "nxt h0 \<le> nxt h"
    and "deck_loop grow n i cards ret h = (ret', h')"
  shows "valid h' ret' \<and>
    cards_of h' ret' = cards_of h ret @ concat (replicate (nat (n - i)) (cards_of h0 cards)) \<and>
    same_below (nxt h0) h0 h' \<and> nxt h0 \<le> nxt h' \<and> rng h' = rng h"
  using assms
proof (induction grow n i cards ret h rule: deck_loop.induct)
  case (1 grow n i cards ret h)
  show ?case
  proof (cases "i < n")
    case True
    have same: "cards_of h cards = cards_of h0 cards"
      using same_below_cards [OF "1.prems"(1,4)] .
    obtain r1 h1 where app: "appendSlice grow ret (cards_of h cards) h = (r1, h1)"
      by (cases "appendSlice grow ret (cards_of h cards) h")
    with True "1.prems"(6)
    have rec: "deck_loop grow n (i + 1) cards r1 h1 = (ret', h')"
      by (subst (asm) deck_loop.simps) simp
    note v1 = appendSlice_valid [OF "1.prems"(2) app]
    note k1 = appendSlice_cards [OF "1.prems"(2) app]
    note fr = appendSlice_fresh [OF "1.prems"(2,3,5) app]
    have sb: "same_below (nxt h0) h0 h1"
      using same_below_trans [OF "1.prems"(4) fr(2)] .
    have nx: "nxt h0 \<le> nxt h1"
      using "1.prems"(5) fr(3) by simp
    from True have "nat (n - i) = Suc (nat (n - (i + 1)))"
      by simp
    with "1.IH" [OF True app [symmetric] "1.prems"(1) v1 fr(1) sb nx rec] k1 same fr(4)
    show ?thesis by simp
  next
    case False
    with "1.prems" show ?thesis
      by (subst (asm) deck_loop.simps) auto
  qed
qed

section \<open>Jokers, Filter and Deck as functions on decks\<close>

lemma Jokers_cards:
  assumes "valid h cards"
  shows "result_cards (Jokers grow n cards h) =
    Some (cards_of h cards @ map (\<lambda>k. \<lparr>Suit = Joker, Rank = of_nat k\<rparr>) [0..<nat n])"
proof -
  obtain c1 h1 where j: "jokers_loop grow n 0 cards h = (c1, h1)"
    by (cases "jokers_loop grow n 0 cards h")
  from jokers_loop_cards [OF assms j] j show ?thesis
    by (simp add: Jokers_def result_cards_def)
qed

text \<open>
  C5, as the code has it. For a well-formed input and any \<open>n\<close>, \<open>Jokers n\<close> returns
  the input's cards, unchanged and in their order, followed by exactly \<open>n\<close> cards (none
  when \<open>n\<close> is negative) of suit Joker. The rank of the \<open>k\<close>-th of them is \<open>k\<close>
  converted to \<^verbatim>\<open>uint8\<close>, that is \<open>k mod 256\<close>: the ranks are \<open>0, ..., n - 1\<close> as
  long as \<open>n\<close> is at most 256.
\<close>

theorem Jokers_appends:
  assumes "valid h cards"
  shows "result_cards (Jokers grow n cards h) =
      Some (cards_of h cards @ map (\<lambda>k. \<lparr>Suit = Joker, Rank = of_nat k\<rparr>) [0..<nat n]) \<and>
    map (unat \<circ> Rank) (map (\<lambda>k. \<lparr>Suit = Joker, Rank = of_nat k\<rparr>) [0..<nat n]) =
      map (\<lambda>k. k mod 256) [0..<nat n] \<and>
    (if n \<le> 256 then map (\<lambda>k. k mod 256) [0..<nat n] = [0..<nat n] else True)"
proof -
  have "map (\<lambda>k. k mod 256) [0..<nat n] = [0..<nat n]" if "n \<le> 256"
    using that by (intro map_idI) simp
  then show ?thesis
    using Jokers_cards [OF assms, of grow n] by (simp add: unat_of_nat comp_def)
qed

text \<open>Three jokers after the Ace of Spades and the King of Hearts.\<close>

theorem Jokers_appends_witness:
  "valid (heap_with [\<lparr>Suit = Spade, Rank = Ace\<rparr>, \<lparr>Suit = Heart, Rank = King\<rparr>])
     (whole [\<lparr>Suit = Spade, Rank = Ace\<rparr>, \<lparr>Suit = Heart, Rank = King\<rparr>]) \<and>
   result_cards (Jokers grow_double 3
       (whole [\<lparr>Suit = Spade, Rank = Ace\<rparr>, \<lparr>Suit = Heart, Rank = King\<rparr>])
       (heap_with [\<lparr>Suit = Spade, Rank = Ace\<rparr>, \<lparr>Suit = Heart, Rank = King\<rparr>])) =
     Some [\<lparr>Suit = Spade, Rank = Ace\<rparr>, \<lparr>Suit = Heart, Rank = King\<rparr>,
           \<lparr>Suit = Joker, Rank = 0\<rparr>, \<lparr>Suit = Joker, Rank = 1\<rparr>, \<lparr>Suit = Joker, Rank = 2\<rparr>]"
  using Jokers_appends [where h = "heap_with [\<lparr>Suit = Spade, Rank = Ace\<rparr>, \<lparr>Suit = Heart, Rank = King\<rparr>]"
      and cards = "whole [\<lparr>Suit = Spade, Rank = Ace\<rparr>, \<lparr>Suit = Heart, Rank = King\<rparr>]" and grow = grow_double and n = 3]
  by (simp add: whole_valid whole_cards upt_conv_Cons)

text \<open>
  With 257 jokers, the last one has rank 0 and not 256: the rank field has 8 bits.
\<close>

theorem Jokers_rank_wraps:
  "map_option (\<lambda>cs. unat (Rank (cs ! 256))) (result_cards (Jokers grow_double 257 nil (heap_with []))) = Some 0"
proof -
  have "(map (\<lambda>k. \<lparr>Suit = Joker, Rank = of_nat k\<rparr>) [0..<257]) ! 256 = \<lparr>Suit = Joker, Rank = of_nat 256\<rparr>"
    by (subst nth_map) simp_all
  then show ?thesis 
    using Jokers_cards [OF nil_valid(1), where grow = grow_double and n = 257 and h = "heap_with []"]
    by (simp add: nil_valid)
qed

text \<open>
  C6. For a well-formed input and every predicate \<open>f\<close>, \<open>Filter f\<close> returns exactly
  the cards for which \<open>f\<close> is false, in their original order; when \<open>f\<close> is true of
  every card, the result is the empty deck and not a panic.
\<close>

theorem Filter_removes:
  assumes "valid h cards"
  shows "result_cards (Filter grow f cards h) = Some (filter (\<lambda>c. \<not> f c) (cards_of h cards)) \<and>
    (list_all f (cards_of h cards) \<longrightarrow> result_cards (Filter grow f cards h) = Some [])"
proof -
  obtain r1 h1 where l: "filter_loop grow f cards 0 nil h = (r1, h1)"
    by (cases "filter_loop grow f cards 0 nil h")
  have "fresh_since (nxt h) nil"
    by (simp add: fresh_since_def nil_def)
  from filter_loop_cards [OF assms nil_valid(1) this same_below_refl order_refl l] l
  have "result_cards (Filter grow f cards h) = Some (filter (\<lambda>c. \<not> f c) (cards_of h cards))"
    by (simp add: Filter_def result_cards_def nil_valid)
  then show ?thesis
    by (simp add: list_all_iff)
qed

text \<open>Removing the jokers: from a deck of two jokers, and from a mixed deck.\<close>

theorem Filter_removes_witness:
  "valid (heap_with [\<lparr>Suit = Joker, Rank = 0\<rparr>, \<lparr>Suit = Joker, Rank = 1\<rparr>])
     (whole [\<lparr>Suit = Joker, Rank = 0\<rparr>, \<lparr>Suit = Joker, Rank = 1\<rparr>]) \<and>
   list_all (\<lambda>c. Suit c = Joker)
     (cards_of (heap_with [\<lparr>Suit = Joker, Rank = 0\<rparr>, \<lparr>Suit = Joker, Rank = 1\<rparr>])
        (whole [\<lparr>Suit = Joker, Rank = 0\<rparr>, \<lparr>Suit = Joker, Rank = 1\<rparr>])) \<and>
   result_cards (Filter grow_double (\<lambda>c. Suit c = Joker)
       (whole [\<lparr>Suit = Joker, Rank = 0\<rparr>, \<lparr>Suit = Joker, Rank = 1\<rparr>])
       (heap_with [\<lparr>Suit = Joker, Rank = 0\<rparr>, \<lparr>Suit = Joker, Rank = 1\<rparr>])) = Some [] \<and>
   result_cards (Filter grow_double (\<lambda>c. Suit c = Joker)
       (whole [\<lparr>Suit = Joker, Rank = 0\<rparr>, \<lparr>Suit = Spade, Rank = Ace\<rparr>,
               \<lparr>Suit = Joker, Rank = 1\<rparr>, \<lparr>Suit = Heart, Rank = King\<rparr>])
       (heap_with [\<lparr>Suit = Joker, Rank = 0\<rparr>, \<lparr>Suit = Spade, Rank = Ace\<rparr>,
               \<lparr>Suit = Joker, Rank = 1\<rparr>, \<lparr>Suit = Heart, Rank = King\<rparr>])) =
     Some [\<lparr>Suit = Spade, Rank = Ace\<rparr>, \<lparr>Suit = Heart, Rank = King\<rparr>]"
  using Filter_removes [where h = "heap_with [\<lparr>Suit = Joker, Rank = 0\<rparr>, \<lparr>Suit = Joker, Rank = 1\<rparr>]"
      and cards = "whole [\<lparr>Suit = Joker, Rank = 0\<rparr>, \<lparr>Suit = Joker, Rank = 1\<rparr>]"
      and grow = grow_double and f = "\<lambda>c. Suit c = Joker"]
    Filter_removes [where h = "heap_with [\<lparr>Suit = Joker, Rank = 0\<rparr>, \<lparr>Suit = Spade, Rank = Ace\<rparr>,
               \<lparr>Suit = Joker, Rank = 1\<rparr>, \<lparr>Suit = Heart, Rank = King\<rparr>]"
      and cards = "whole [\<lparr>Suit = Joker, Rank = 0\<rparr>, \<lparr>Suit = Spade, Rank = Ace\<rparr>,
               \<lparr>Suit = Joker, Rank = 1\<rparr>, \<lparr>Suit = Heart, Rank = King\<rparr>]"
      and grow = grow_double and f = "\<lambda>c. Suit c = Joker"]
  by (simp add: whole_valid whole_cards Joker_def Spade_def Heart_def)

lemma length_concat_replicate: "length (concat (replicate k xs)) = k * length xs"
  by (induction k) simp_all

text \<open>
  C7. For a well-formed input, \<open>Deck n\<close> returns \<open>n\<close> copies of the input's cards one
  after the other, \<open>n\<close> times the input's length in all; \<open>Deck 0\<close> returns the empty
  deck and \<open>Deck 1\<close> a deck with the input's cards.
\<close>

theorem Deck_repeats:
  assumes "valid h cards"
  shows "result_cards (Deck grow n cards h) = Some (concat (replicate (nat n) (cards_of h cards))) \<and>
    length (concat (replicate (nat n) (cards_of h cards))) = nat n * len cards \<and>
    result_cards (Deck grow 0 cards h) = Some [] \<and>
    result_cards (Deck grow 1 cards h) = Some (cards_of h cards)"
proof -
  have fr: "fresh_since (nxt h) nil"
    by (simp add: fresh_since_def nil_def)
  have "result_cards (Deck grow m cards h) = Some (concat (replicate (nat m) (cards_of h cards)))"
    for m
  proof -
    obtain r1 h1 where l: "deck_loop grow m 0 cards nil h = (r1, h1)"
      by (cases "deck_loop grow m 0 cards nil h")
    from deck_loop_cards [OF assms nil_valid(1) fr same_below_refl order_refl l] l
    show ?thesis
      by (simp add: Deck_def result_cards_def nil_valid)
  qed
  from this [of n] this [of 0] this [of 1] show ?thesis
    by (simp add: length_concat_replicate valid_length [OF assms])
qed

text \<open>Three copies of a deck of two cards.\<close>

theorem Deck_repeats_witness:
  "valid (heap_with [\<lparr>Suit = Spade, Rank = Ace\<rparr>, \<lparr>Suit = Heart, Rank = King\<rparr>])
     (whole [\<lparr>Suit = Spade, Rank = Ace\<rparr>, \<lparr>Suit = Heart, Rank = King\<rparr>]) \<and>
   result_cards (Deck grow_double 3
       (whole [\<lparr>Suit = Spade, Rank = Ace\<rparr>, \<lparr>Suit = Heart, Rank = King\<rparr>])
       (heap_with [\<lparr>Suit = Spade, Rank = Ace\<rparr>, \<lparr>Suit = Heart, Rank = King\<rparr>])) =
     Some [\<lparr>Suit = Spade, Rank = Ace\<rparr>, \<lparr>Suit = Heart, Rank = King\<rparr>,
           \<lparr>Suit = Spade, Rank = Ace\<rparr>, \<lparr>Suit = Heart, Rank = King\<rparr>,
           \<lparr>Suit = Spade, Rank = Ace\<rparr>, \<lparr>Suit = Heart, Rank = King\<rparr>]"
  using Deck_repeats [where h = "heap_with [\<lparr>Suit = Spade, Rank = Ace\<rparr>, \<lparr>Suit = Heart, Rank = King\<rparr>]"
      and cards = "whole [\<lparr>Suit = Spade, Rank = Ace\<rparr>, \<lparr>Suit = Heart, Rank = King\<rparr>]" and grow = grow_double and n = 3]
  by (simp add: whole_valid whole_cards numeral_3_eq_3)

section \<open>Insertion sort sorts\<close>

lemma strict_weak_asym: "strict_weak lt \<Longrightarrow> lt a b \<Longrightarrow> \<not> lt b a"
  unfolding strict_weak_def by blast

lemma strict_weak_negtrans: "strict_weak lt \<Longrightarrow> \<not> lt a b \<Longrightarrow> \<not> lt b c \<Longrightarrow> \<not> lt a c"
  unfolding strict_weak_def by blast

lemma heap_same_array: "arrays h p = xs \<Longrightarrow> h\<lparr>arrays := (arrays h)(p := xs)\<rparr> = h"
  by auto

lemma swap_adjacent:
  assumes "arrays h (ptr s) = A @ [a] @ [x] @ D" and "length A = j"
  shows "swap s (Suc j) j h = h\<lparr>arrays := (arrays h)(ptr s := A @ [x] @ [a] @ D)\<rparr>"
  using assms by (simp add: swap_def Let_def nth_append list_update_append)

lemma insert_loop_spec:
  assumes "compares_by lessf s lt" and "strict_weak lt"
    and "arrays h (ptr s) = A @ [x] @ B @ C" and "length A = j" and "j < len s"
    and "sorted_wrt (\<lambda>a b. \<not> lt b a) A" and "sorted_wrt (\<lambda>a b. \<not> lt b a) B"
    and "\<forall>b\<in>set B. lt x b" and "\<forall>a\<in>set A. \<forall>b\<in>set B. \<not> lt b a"
  shows "\<exists>A1 A2. A = A1 @ A2 \<and>
    insert_loop lessf s j h = Some (h\<lparr>arrays := (arrays h)(ptr s := A1 @ [x] @ A2 @ B @ C)\<rparr>) \<and>
    sorted_wrt (\<lambda>a b. \<not> lt b a) (A1 @ [x] @ A2 @ B)"
  using assms(3-)
proof (induction j arbitrary: A B h)
  case 0
  have 1: "A = [] @ []"
    using 0 by simp
  have "h\<lparr>arrays := (arrays h)(ptr s := [] @ [x] @ [] @ B @ C)\<rparr> = h"
    using 0 by (intro heap_same_array) simp
  then have 2: "insert_loop lessf s 0 h =
      Some (h\<lparr>arrays := (arrays h)(ptr s := [] @ [x] @ [] @ B @ C)\<rparr>)"
    by (simp only: insert_loop.simps)
  have 3: "sorted_wrt (\<lambda>a b. \<not> lt b a) ([] @ [x] @ [] @ B)"
    using 0 strict_weak_asym [OF assms(2)] by auto
  from 1 2 3 show ?case by blast
next
  case (Suc j)
  from Suc.prems(2) obtain A0 a where A: "A = A0 @ [a]" and lenA0: "length A0 = j"
    by (cases A rule: rev_cases) auto
  have arr: "arrays h (ptr s) = A0 @ [a] @ [x] @ (B @ C)"
    using Suc.prems(1) A by simp
  have nth: "arrays h (ptr s) ! Suc j = x" "arrays h (ptr s) ! j = a"
    using arr lenA0 by (simp_all add: nth_append)
  have cmp: "lessf h (Suc j) j = Some (lt x a)"
    using assms(1) Suc.prems(3) nth unfolding compares_by_def by simp
  show ?case
  proof (cases "lt x a")
    case False
    have "\<forall>a'\<in>set A. \<not> lt x a'"
    proof
      fix a' assume "a' \<in> set A"
      then consider "a' = a" | "a' \<in> set A0" using A by auto
      then show "\<not> lt x a'"
      proof cases
        case 1 with False show ?thesis by simp
      next
        case 2
        with Suc.prems(4) A have "\<not> lt a a'"
          by (simp add: sorted_wrt_append)
        with False show ?thesis
          using strict_weak_negtrans [OF assms(2)] by blast
      qed
    qed
    then have 3: "sorted_wrt (\<lambda>a b. \<not> lt b a) (A @ [x] @ [] @ B)"
      using Suc.prems(4,5,6,7) strict_weak_asym [OF assms(2)]
      by (auto simp: sorted_wrt_append)
    have "h\<lparr>arrays := (arrays h)(ptr s := A @ [x] @ [] @ B @ C)\<rparr> = h"
      using Suc.prems(1) by (intro heap_same_array) simp
    moreover have "insert_loop lessf s (Suc j) h = Some h"
      using cmp False by simp
    ultimately have 2: "insert_loop lessf s (Suc j) h =
        Some (h\<lparr>arrays := (arrays h)(ptr s := A @ [x] @ [] @ B @ C)\<rparr>)"
      by (simp only:)
    have 1: "A = A @ []"
      by simp
    from 1 2 3 show ?thesis by blast
  next
    case True
    define h1 where "h1 = h\<lparr>arrays := (arrays h)(ptr s := A0 @ [x] @ [a] @ (B @ C))\<rparr>"
    have sw: "swap s (Suc j) j h = h1"
      unfolding h1_def using swap_adjacent [OF arr lenA0] .
    have arr1: "arrays h1 (ptr s) = A0 @ [x] @ (a # B) @ C"
      by (simp add: h1_def)
    have 1: "sorted_wrt (\<lambda>a b. \<not> lt b a) A0"
      using Suc.prems(4) A by (simp add: sorted_wrt_append)
    have 2: "sorted_wrt (\<lambda>a b. \<not> lt b a) (a # B)"
      using Suc.prems(5,7) A by simp
    have 3: "\<forall>b\<in>set (a # B). lt x b"
      using True Suc.prems(6) by simp
    have 4: "\<forall>a'\<in>set A0. \<forall>b\<in>set (a # B). \<not> lt b a'"
      using Suc.prems(4,7) A by (auto simp: sorted_wrt_append)
    have jl: "j < len s"
      using Suc.prems(3) by simp
    from Suc.IH [OF arr1 lenA0 jl 1 2 3 4]
    obtain A1 A2 where r: "A0 = A1 @ A2"
      "insert_loop lessf s j h1 =
         Some (h1\<lparr>arrays := (arrays h1)(ptr s := A1 @ [x] @ A2 @ (a # B) @ C)\<rparr>)"
      "sorted_wrt (\<lambda>a b. \<not> lt b a) (A1 @ [x] @ A2 @ (a # B))"
      by blast
    have "insert_loop lessf s (Suc j) h =
        Some (h\<lparr>arrays := (arrays h)(ptr s := A1 @ [x] @ (A2 @ [a]) @ B @ C)\<rparr>)"
      using cmp True sw r(2) by (simp add: h1_def)
    moreover have "A = A1 @ (A2 @ [a])"
      using A r(1) by simp
    moreover have "sorted_wrt (\<lambda>a b. \<not> lt b a) (A1 @ [x] @ (A2 @ [a]) @ B)"
      using r(3) by simp
    ultimately show ?thesis by blast
  qed
qed

lemma insertion_loop_spec:
  assumes "compares_by lessf s lt" and "strict_weak lt"
    and "i \<le> len s" and "len s \<le> length (arrays h (ptr s))"
    and "sorted_wrt (\<lambda>a b. \<not> lt b a) (take i (arrays h (ptr s)))"
  shows "\<exists>ys. mset ys = mset (take (len s) (arrays h (ptr s))) \<and>
    sorted_wrt (\<lambda>a b. \<not> lt b a) ys \<and>
    insertion_loop lessf s i h =
      Some (h\<lparr>arrays := (arrays h)(ptr s := ys @ drop (len s) (arrays h (ptr s)))\<rparr>)"
  using assms
proof (induction lessf s i h rule: insertion_loop.induct)
  case (1 lessf s i h)
  define arr where "arr = arrays h (ptr s)"
  show ?case
  proof (cases "i < len s")
    case False
    with "1.prems"(3) have i: "i = len s" by simp
    have "h\<lparr>arrays := (arrays h)(ptr s := take (len s) arr @ drop (len s) arr)\<rparr> = h"
      by (intro heap_same_array) (simp add: arr_def)
    moreover have "insertion_loop lessf s i h = Some h"
      using False by (subst insertion_loop.simps) simp
    ultimately have "insertion_loop lessf s i h =
        Some (h\<lparr>arrays := (arrays h)(ptr s := take (len s) arr @ drop (len s) arr)\<rparr>)"
      by (simp only:)
    moreover have "sorted_wrt (\<lambda>a b. \<not> lt b a) (take (len s) arr)"
      using "1.prems"(5) i by (simp add: arr_def)
    ultimately show ?thesis
      unfolding arr_def by blast
  next
    case True
    have ilen: "i < length arr"
      using True "1.prems"(4) by (simp add: arr_def)
    have split: "arrays h (ptr s) = take i arr @ [arr ! i] @ [] @ drop (Suc i) arr"
      using ilen by (simp add: arr_def id_take_nth_drop [symmetric])
    have li: "length (take i arr) = i"
      using ilen by simp
    from insert_loop_spec [OF "1.prems"(1,2) split li True]  "1.prems"(5)
    obtain A1 A2 where r: "take i arr = A1 @ A2"
      "insert_loop lessf s i h =
         Some (h\<lparr>arrays := (arrays h)(ptr s := A1 @ [arr ! i] @ A2 @ [] @ drop (Suc i) arr)\<rparr>)"
      "sorted_wrt (\<lambda>a b. \<not> lt b a) (A1 @ [arr ! i] @ A2 @ [])"
      unfolding arr_def by auto
    define P where "P = A1 @ [arr ! i] @ A2"
    define h1 where "h1 = h\<lparr>arrays := (arrays h)(ptr s := P @ drop (Suc i) arr)\<rparr>"
    have il: "insert_loop lessf s i h = Some h1"
      using r(2) by (simp add: h1_def P_def)
    have "length (A1 @ A2) = i"
      unfolding r(1) [symmetric] by (rule li)
    then have lP: "length P = Suc i"
      by (simp add: P_def)
    have "mset P = mset (A1 @ A2) + {#arr ! i#}"
      by (simp add: P_def)
    then have mP: "mset P = mset (take (Suc i) arr)"
      unfolding r(1) [symmetric] using ilen by (simp add: take_Suc_conv_app_nth)
    have arr1: "arrays h1 (ptr s) = P @ drop (Suc i) arr"
      by (simp add: h1_def)
    have 1: "Suc i \<le> len s"
      using True by simp
    have 2: "len s \<le> length (arrays h1 (ptr s))"
      using "1.prems"(4) ilen lP by (simp add: arr1 arr_def)
    have tP: "take (Suc i) (P @ drop (Suc i) arr) = P"
      using lP by simp
    have 3: "sorted_wrt (\<lambda>a b. \<not> lt b a) (take (Suc i) (arrays h1 (ptr s)))"
      unfolding arr1 tP using r(3) by (simp add: P_def)
    from "1.IH" [OF True il "1.prems"(1,2) 1 2 3]
    obtain ys where ys: "mset ys = mset (take (len s) (arrays h1 (ptr s)))"
      "sorted_wrt (\<lambda>a b. \<not> lt b a) ys"
      "insertion_loop lessf s (Suc i) h1 =
        Some (h1\<lparr>arrays := (arrays h1)(ptr s := ys @ drop (len s) (arrays h1 (ptr s)))\<rparr>)"
      by blast
    have dr: "drop (len s) (arrays h1 (ptr s)) = drop (len s) arr"
      using 1 lP by (simp add: arr1)
    have "take (len s) (arrays h1 (ptr s)) = P @ take (len s - Suc i) (drop (Suc i) arr)"
      using 1 lP by (simp add: arr1)
    then have "mset (take (len s) (arrays h1 (ptr s))) =
        mset (take (Suc i) arr @ take (len s - Suc i) (drop (Suc i) arr))"
      using mP by simp
    also have "take (Suc i) arr @ take (len s - Suc i) (drop (Suc i) arr) = take (len s) arr"
      using 1 by (metis take_add le_add_diff_inverse)
    finally have m: "mset ys = mset (take (len s) (arrays h (ptr s)))"
      using ys(1) by (simp add: arr_def)
    have "insertion_loop lessf s i h = insertion_loop lessf s (Suc i) h1"
      using True il by (subst insertion_loop.simps) simp
    also have "\<dots> = Some (h\<lparr>arrays := (arrays h)(ptr s := ys @ drop (len s) (arrays h (ptr s)))\<rparr>)"
      unfolding ys(3) dr by (simp add: h1_def arr_def)
    finally show ?thesis
      using m ys(2) by blast
  qed
qed

lemma insertionSort_meets_spec: "sort_Slice_spec insertionSort"
  unfolding sort_Slice_spec_def
proof (intro allI impI)
  fix lessf s h lt
  assume a: "valid h s \<and> strict_weak lt \<and> compares_by lessf s lt"
  then have v: "len s \<le> length (arrays h (ptr s))"
    by (simp add: valid_def)
  show "\<exists>ys. mset ys = mset (cards_of h s) \<and>
          sorted_wrt (\<lambda>a b. \<not> lt b a) ys \<and>
          insertionSort lessf s h =
            Some (h\<lparr>arrays := (arrays h)(ptr s := ys @ drop (len s) (arrays h (ptr s)))\<rparr>)"
  proof (cases "len s = 0")
    case True
    have "h\<lparr>arrays := (arrays h)(ptr s := [] @ drop (len s) (arrays h (ptr s)))\<rparr> = h"
      using True by (intro heap_same_array) simp
    moreover have "insertionSort lessf s h = Some h"
      unfolding insertionSort_def using True by (subst insertion_loop.simps) simp
    ultimately have "insertionSort lessf s h =
        Some (h\<lparr>arrays := (arrays h)(ptr s := [] @ drop (len s) (arrays h (ptr s)))\<rparr>)"
      by (simp only:)
    moreover have "mset [] = mset (cards_of h s)"
      using True by (simp add: cards_of_def)
    moreover have "sorted_wrt (\<lambda>a b. \<not> lt b a) []"
      by simp
    ultimately show ?thesis by blast
  next
    case False
    then have 1: "1 \<le> len s" by simp
    have "length (take 1 (arrays h (ptr s))) \<le> 1"
      by simp
    then have 3: "sorted_wrt (\<lambda>a b. \<not> lt b a) (take 1 (arrays h (ptr s)))"
      by (cases "arrays h (ptr s)") simp_all
    from a insertion_loop_spec [OF _ _ 1 v 3, where lessf = lessf] show ?thesis
      unfolding insertionSort_def cards_of_def by blast
  qed
qed

section \<open>DefaultSort\<close>

lemma absRank_strict_weak: "strict_weak (\<lambda>a b. absRank a < absRank b)"
  by (simp add: strict_weak_def)

lemma Less_compares: "compares_by (Less cards) cards (\<lambda>a b. absRank a < absRank b)"
  by (simp add: compares_by_def Less_def index_def)

lemma sorted_wrt_absRank:
  "sorted_wrt (\<lambda>a b. \<not> absRank b < absRank a) ys = sorted (map absRank ys)"
  by (simp add: sorted_map not_less)

lemma DefaultSort_spec:
  assumes "sort_Slice_spec sortSlice" and "valid h cards"
  shows "\<exists>ys. mset ys = mset (cards_of h cards) \<and> sorted (map absRank ys) \<and>
    DefaultSort sortSlice cards h =
      Some (cards, h\<lparr>arrays := (arrays h)(ptr cards := ys @ drop (len cards) (arrays h (ptr cards)))\<rparr>)"
proof -
  from assms absRank_strict_weak Less_compares [of cards]
  obtain ys where "mset ys = mset (cards_of h cards)"
    "sorted_wrt (\<lambda>a b. \<not> absRank b < absRank a) ys"
    "sortSlice (Less cards) cards h =
       Some (h\<lparr>arrays := (arrays h)(ptr cards := ys @ drop (len cards) (arrays h (ptr cards)))\<rparr>)"
    unfolding sort_Slice_spec_def by blast
  then show ?thesis
    by (auto simp: DefaultSort_def sorted_wrt_absRank)
qed

lemma sorted_standard_unique:
  assumes "mset ys = mset standard_deck" and "sorted (map absRank ys)"
  shows "ys = standard_deck"
proof -
  have d: "distinct (map absRank standard_deck)"
    unfolding absRank_standard_deck by (simp add: distinct_map)
  then have inj: "inj_on absRank (set standard_deck)"
    by (simp add: distinct_map)
  have s: "sorted (map absRank standard_deck)"
    unfolding absRank_standard_deck by (simp add: sorted_map)
  have "sort_key absRank standard_deck = ys"
    using assms inj by (intro sort_key_inj_key_eq) simp_all
  moreover have "sort_key absRank standard_deck = standard_deck"
    using s inj by (intro sort_key_inj_key_eq) simp_all
  ultimately show ?thesis by simp
qed

lemma DefaultSort_standard:
  assumes "sort_Slice_spec sortSlice" and "valid h cards"
    and "mset (cards_of h cards) = mset standard_deck"
  shows "DefaultSort sortSlice cards h =
      Some (cards, h\<lparr>arrays := (arrays h)(ptr cards := standard_deck @ drop 52 (arrays h (ptr cards)))\<rparr>)"
    and "len cards = 52"
proof -
  have "size (mset (cards_of h cards)) = 52"
    unfolding assms(3) by (simp add: standard_deck_length)
  then show l: "len cards = 52"
    using valid_length [OF assms(2)] by simp
  from DefaultSort_spec [OF assms(1,2)] obtain ys where
    ys: "mset ys = mset (cards_of h cards)" "sorted (map absRank ys)"
    "DefaultSort sortSlice cards h =
      Some (cards, h\<lparr>arrays := (arrays h)(ptr cards := ys @ drop (len cards) (arrays h (ptr cards)))\<rparr>)"
    by blast
  have "ys = standard_deck"
    using ys(1,2) assms(3) by (intro sorted_standard_unique) simp_all
  with ys(3) l show "DefaultSort sortSlice cards h =
      Some (cards, h\<lparr>arrays := (arrays h)(ptr cards := standard_deck @ drop 52 (arrays h (ptr cards)))\<rparr>)"
    by simp
qed

lemma insertionSort_two:
  "insertionSort lessf (whole [a, b]) (heap_with [a, b]) =
     (case lessf (heap_with [a, b]) 1 0 of
        None \<Rightarrow> None
      | Some False \<Rightarrow> Some (heap_with [a, b])
      | Some True \<Rightarrow> Some (heap_with [b, a]))"
proof -
  have l: "len (whole [a, b]) = 2"
    by (simp add: whole_def)
  have sw: "swap (whole [a, b]) (Suc 0) 0 (heap_with [a, b]) = heap_with [b, a]"
    by (simp add: swap_def whole_def heap_with_def Let_def)
  have stop: "insertion_loop lessf (whole [a, b]) (Suc 1) h = Some h" for h
    by (subst insertion_loop.simps) (simp add: l)
  show ?thesis
    unfolding insertionSort_def
    by (subst insertion_loop.simps) (simp add: l sw stop split: option.splits bool.splits)
qed

lemma DefaultSort_two:
  "DefaultSort insertionSort (whole [a, b]) (heap_with [a, b]) =
     Some (whole [a, b], if absRank b < absRank a then heap_with [b, a] else heap_with [a, b])"
proof -
  have "Less (whole [a, b]) (heap_with [a, b]) 1 0 = Some (absRank b < absRank a)"
    by (simp add: Less_def index_def whole_def heap_with_def)
  then show ?thesis
    by (simp add: DefaultSort_def insertionSort_two)
qed

lemma whole_cards_any: "length ys = length xs \<Longrightarrow> cards_of (heap_with xs) (whole ys) = xs"
  by (simp add: cards_of_def heap_with_def whole_def)

text \<open>
  C2. Whatever \<^verbatim>\<open>sort.Slice\<close> does within its contract: on a well-formed deck that
  is a permutation of the 52-card deck, \<open>DefaultSort\<close> returns the deck in suit-major,
  rank-minor order, and sorting the result once more returns the same slice on the same
  heap, so that sorting twice equals sorting once.
\<close>

theorem DefaultSort_canonical:
  assumes "sort_Slice_spec sortSlice" and "valid h cards"
    and "mset (cards_of h cards) = mset standard_deck"
  shows "result_cards (DefaultSort sortSlice cards h) = Some standard_deck \<and>
    Option.bind (DefaultSort sortSlice cards h) (\<lambda>(cards', h'). DefaultSort sortSlice cards' h') =
      DefaultSort sortSlice cards h"
proof -
  define h1 where
    "h1 = h\<lparr>arrays := (arrays h)(ptr cards := standard_deck @ drop 52 (arrays h (ptr cards)))\<rparr>"
  note first = DefaultSort_standard [OF assms, folded h1_def]
  have c1: "cards_of h1 cards = standard_deck"
    using first(2) by (simp add: h1_def cards_of_def standard_deck_length)
  have v1: "valid h1 cards"
    using assms(2) first(2) by (auto simp: valid_def h1_def standard_deck_length)
  have "h1\<lparr>arrays := (arrays h1)(ptr cards := standard_deck @ drop 52 (arrays h1 (ptr cards)))\<rparr> = h1"
    by (intro heap_same_array) (simp add: h1_def standard_deck_length)
  with DefaultSort_standard(1) [OF assms(1) v1] c1
  have second: "DefaultSort sortSlice cards h1 = Some (cards, h1)"
    by simp
  from first(1) c1 second show ?thesis
    by (simp add: result_cards_def)
qed

text \<open>Insertion sort on the reversed deck.\<close>

theorem DefaultSort_canonical_witness:
  "sort_Slice_spec insertionSort \<and>
   valid (heap_with (rev standard_deck)) (whole (rev standard_deck)) \<and>
   mset (cards_of (heap_with (rev standard_deck)) (whole (rev standard_deck))) = mset standard_deck \<and>
   result_cards (DefaultSort insertionSort (whole (rev standard_deck)) (heap_with (rev standard_deck))) =
     Some standard_deck \<and>
   Option.bind (DefaultSort insertionSort (whole (rev standard_deck)) (heap_with (rev standard_deck)))
       (\<lambda>(cards', h'). DefaultSort insertionSort cards' h') =
     DefaultSort insertionSort (whole (rev standard_deck)) (heap_with (rev standard_deck))"
  using DefaultSort_canonical [where sortSlice = insertionSort
      and h = "heap_with (rev standard_deck)" and cards = "whole (rev standard_deck)"]
  by (simp add: insertionSort_meets_spec whole_valid whole_cards)

text \<open>
  C8. \<open>Sort\<close> applied to the library's own \<open>Less\<close> is \<open>DefaultSort\<close>: on every
  input, in every heap and for every implementation of \<^verbatim>\<open>sort.Slice\<close>, both return
  the same slice and leave the same heap (or both panic).
\<close>

theorem Sort_Less_is_DefaultSort:
  "Sort sortSlice Less cards h = DefaultSort sortSlice cards h"
  by (simp add: Sort_def DefaultSort_def)

section \<open>Shuffle\<close>

lemma shuffle_loop_result:
  assumes "ptr ret \<noteq> ptr cards" and "\<forall>j\<in>set js. j < len cards"
    and "i + length js \<le> len ret" and "len ret \<le> length (arrays h (ptr ret))"
  shows "shuffle_loop i js cards ret h =
    Some (h\<lparr>arrays := (arrays h)(ptr ret :=
      take i (arrays h (ptr ret)) @ map (\<lambda>j. arrays h (ptr cards) ! j) js @
      drop (i + length js) (arrays h (ptr ret)))\<rparr>)"
  using assms
proof (induction js arbitrary: i h)
  case Nil
  have e: "h\<lparr>arrays := (arrays h)(ptr ret :=
      take i (arrays h (ptr ret)) @ map (\<lambda>j. arrays h (ptr cards) ! j) [] @
      drop (i + length []) (arrays h (ptr ret)))\<rparr> = h"
    by (intro heap_same_array) simp
  have b: "shuffle_loop i [] cards ret h = Some h"
    by simp
  show ?case
    using b arg_cong [OF e [symmetric], of Some] by (rule trans)
next
  case (Cons j js)
  define a where "a = arrays h (ptr ret)"
  define c where "c = arrays h (ptr cards) ! j"
  define h1 where "h1 = h\<lparr>arrays := (arrays h)(ptr ret := a[i := c])\<rparr>"
  have i: "i < len ret" "i < length a"
    using Cons.prems(3,4) by (simp_all add: a_def)
  have idx: "index h cards j = Some c"
    using Cons.prems(2) by (simp add: index_def c_def)
  have st: "store h ret i c = Some h1"
    using i by (simp add: store_def h1_def a_def)
  have a1: "arrays h1 (ptr ret) = a[i := c]" "arrays h1 (ptr cards) = arrays h (ptr cards)"
    using Cons.prems(1) by (simp_all add: h1_def)
  have 2: "\<forall>j\<in>set js. j < len cards"
    using Cons.prems(2) by simp
  have 3: "Suc i + length js \<le> len ret"
    using Cons.prems(3) by simp
  have 4: "len ret \<le> length (arrays h1 (ptr ret))"
    using Cons.prems(4) by (simp add: a1 a_def)
  have tk: "take (Suc i) (a[i := c]) = take i a @ [c]"
    using i by (simp add: take_Suc_conv_app_nth)
  have dr: "drop (Suc i + length js) (a[i := c]) = drop (i + length (j # js)) a"
    by simp
  have "shuffle_loop i (j # js) cards ret h = shuffle_loop (Suc i) js cards ret h1"
    by (simp add: idx st)
  also have "\<dots> = Some (h1\<lparr>arrays := (arrays h1)(ptr ret :=
      take (Suc i) (arrays h1 (ptr ret)) @ map (\<lambda>j. arrays h1 (ptr cards) ! j) js @
      drop (Suc i + length js) (arrays h1 (ptr ret)))\<rparr>)"
    using Cons.IH [OF Cons.prems(1) 2 3 4] .
  also have "\<dots> = Some (h\<lparr>arrays := (arrays h)(ptr ret :=
      take i a @ map (\<lambda>j. arrays h (ptr cards) ! j) (j # js) @
      drop (i + length (j # js)) a)\<rparr>)"
    unfolding a1 tk dr by (simp add: h1_def c_def)
  finally show ?case
    unfolding a_def .
qed

lemma Perm_spec_facts:
  assumes "Perm_spec Perm" and "Perm g n = (perm, g')"
  shows "length perm = n" and "\<forall>j\<in>set perm. j < n" and "mset perm = mset [0..<n]"
proof -
  show m: "mset perm = mset [0..<n]"
    using assms unfolding Perm_spec_def by (metis fst_conv)
  from m have "size (mset perm) = size (mset [0..<n])" by simp
  then show "length perm = n" by simp
  from m have "set_mset (mset perm) = set_mset (mset [0..<n])" by simp
  then show "\<forall>j\<in>set perm. j < n" by simp
qed

lemma map_nth_take: "n \<le> length xs \<Longrightarrow> map ((!) xs) [0..<n] = take n xs"
  by (simp add: list_eq_iff_nth_eq)

lemma Shuffle_result:
  assumes "Perm_spec Perm" and "valid h cards"
    and "Perm (rng h) (len cards) = (perm, g)"
  shows "Shuffle Perm cards h =
    Some (\<lparr>ptr = nxt h, len = len cards, cap = len cards\<rparr>,
          h\<lparr>arrays := (arrays h)(nxt h := map (\<lambda>j. arrays h (ptr cards) ! j) perm),
            nxt := Suc (nxt h), rng := g\<rparr>)"
proof -
  define n where "n = len cards"
  define ret where "ret = \<lparr>ptr = nxt h, len = n, cap = n\<rparr>"
  define h1 where
    "h1 = h\<lparr>arrays := (arrays h)(nxt h := replicate n zeroCard), nxt := Suc (nxt h), rng := g\<rparr>"
  note pf = Perm_spec_facts [OF assms(1,3)]
  have loop: "shuffle_loop 0 perm cards ret h1 =
      Some (h1\<lparr>arrays := (arrays h1)(ptr ret :=
        take 0 (arrays h1 (ptr ret)) @ map (\<lambda>j. arrays h1 (ptr cards) ! j) perm @
        drop (0 + length perm) (arrays h1 (ptr ret)))\<rparr>)"
  proof (cases "n = 0")
    case True
    then have p: "perm = []" using pf(1) by (simp add: n_def)
    have e: "h1\<lparr>arrays := (arrays h1)(ptr ret :=
        take 0 (arrays h1 (ptr ret)) @ map (\<lambda>j. arrays h1 (ptr cards) ! j) [] @
        drop (0 + length []) (arrays h1 (ptr ret)))\<rparr> = h1"
      by (intro heap_same_array) simp
    have b: "shuffle_loop 0 [] cards ret h1 = Some h1"
      by simp
    show ?thesis
      unfolding p using b arg_cong [OF e [symmetric], of Some] by (rule trans)
  next
    case False
    then have "ptr cards < nxt h"
      using assms(2) by (auto simp: valid_def n_def)
    then have 1: "ptr ret \<noteq> ptr cards"
      by (simp add: ret_def)
    have 3: "0 + length perm \<le> len ret"
      using pf(1) by (simp add: ret_def n_def)
    have 4: "len ret \<le> length (arrays h1 (ptr ret))"
      by (simp add: ret_def h1_def)
    show ?thesis
      using shuffle_loop_result [OF 1 pf(2) 3 4] .
  qed
  have same: "map (\<lambda>j. arrays h1 (ptr cards) ! j) perm = map (\<lambda>j. arrays h (ptr cards) ! j) perm"
  proof (cases "n = 0")
    case True
    then have "perm = []" using pf(1) by (simp add: n_def)
    then show ?thesis by simp
  next
    case False
    then have "ptr cards < nxt h"
      using assms(2) by (auto simp: valid_def n_def)
    then show ?thesis by (simp add: h1_def)
  qed
  have "Shuffle Perm cards h =
      Some (ret, h1\<lparr>arrays := (arrays h1)(ptr ret :=
        take 0 (arrays h1 (ptr ret)) @ map (\<lambda>j. arrays h1 (ptr cards) ! j) perm @
        drop (0 + length perm) (arrays h1 (ptr ret)))\<rparr>)"
    using loop assms(3)
    by (simp add: Shuffle_def make_def ret_def [symmetric] n_def [symmetric] h1_def [symmetric])
  also have "\<dots> = Some (\<lparr>ptr = nxt h, len = len cards, cap = len cards\<rparr>,
          h\<lparr>arrays := (arrays h)(nxt h := map (\<lambda>j. arrays h (ptr cards) ! j) perm),
            nxt := Suc (nxt h), rng := g\<rparr>)"
    unfolding same using pf(1) by (simp add: ret_def h1_def n_def)
  finally show ?thesis .
qed

lemma Shuffle_cards:
  assumes "Perm_spec Perm" and "valid h cards"
  shows "\<exists>ret h' perm. Shuffle Perm cards h = Some (ret, h') \<and> len ret = len cards \<and>
    cards_of h' ret = map (\<lambda>j. cards_of h cards ! j) perm \<and>
    mset perm = mset [0..<len cards] \<and>
    cards_of h' cards = cards_of h cards \<and> same_below (nxt h) h h'"
proof -
  obtain perm g where p: "Perm (rng h) (len cards) = (perm, g)"
    by (cases "Perm (rng h) (len cards)")
  note pf = Perm_spec_facts [OF assms(1) p]
  define ret where "ret = \<lparr>ptr = nxt h, len = len cards, cap = len cards\<rparr>"
  define h' where "h' = h\<lparr>arrays := (arrays h)(nxt h := map (\<lambda>j. arrays h (ptr cards) ! j) perm),
            nxt := Suc (nxt h), rng := g\<rparr>"
  have r: "Shuffle Perm cards h = Some (ret, h')"
    unfolding ret_def h'_def by (rule Shuffle_result [OF assms p])
  have "map (\<lambda>j. arrays h (ptr cards) ! j) perm = map (\<lambda>j. cards_of h cards ! j) perm"
    using pf(2) by (simp add: cards_of_def)
  then have c: "cards_of h' ret = map (\<lambda>j. cards_of h cards ! j) perm"
    using pf(1) by (simp add: cards_of_def ret_def h'_def)
  have sb: "same_below (nxt h) h h'"
    by (simp add: same_below_def h'_def)
  have "cards_of h' cards = cards_of h cards"
    using same_below_cards [OF assms(2) sb] .
  with r c pf(3) sb show ?thesis
    by (auto simp: ret_def)
qed

lemma mset_map_nth_perm:
  assumes "mset perm = mset [0..<length xs]"
  shows "mset (map (\<lambda>j. xs ! j) perm) = mset xs"
proof -
  have "mset (map (\<lambda>j. xs ! j) perm) = image_mset (\<lambda>j. xs ! j) (mset perm)"
    by simp
  also have "\<dots> = mset (map (\<lambda>j. xs ! j) [0..<length xs])"
    unfolding assms by simp
  also have "map (\<lambda>j. xs ! j) [0..<length xs] = xs"
    by (rule map_nth)
  finally show ?thesis .
qed

text \<open>
  C4. Whatever permutation of \<open>0, ..., n - 1\<close> the generator hands out: on a
  well-formed input of length \<open>n\<close>, \<open>Shuffle\<close> returns (it does not panic) a deck of
  length \<open>n\<close> with the same multiset of cards as the input, and the input slice shows
  the same cards after the call as before.
\<close>

theorem Shuffle_permutes:
  assumes "Perm_spec Perm" and "valid h cards"
  shows "map_option (\<lambda>(ret, h'). len ret) (Shuffle Perm cards h) = Some (len cards) \<and>
    map_option length (result_cards (Shuffle Perm cards h)) = Some (len cards) \<and>
    map_option mset (result_cards (Shuffle Perm cards h)) = Some (mset (cards_of h cards)) \<and>
    cards_after cards (Shuffle Perm cards h) = Some (cards_of h cards)"
proof -
  from Shuffle_cards [OF assms] obtain ret h' perm where
    r: "Shuffle Perm cards h = Some (ret, h')" "len ret = len cards"
      "cards_of h' ret = map (\<lambda>j. cards_of h cards ! j) perm"
      "mset perm = mset [0..<len cards]"
      "cards_of h' cards = cards_of h cards"
    by blast
  have l: "length (cards_of h cards) = len cards"
    using valid_length [OF assms(2)] .
  have m: "mset (cards_of h' ret) = mset (cards_of h cards)"
    unfolding r(3) using r(4) l by (intro mset_map_nth_perm) simp
  then have "size (mset (cards_of h' ret)) = size (mset (cards_of h cards))"
    by simp
  then have "length (cards_of h' ret) = len cards"
    using l by simp
  with r(1,2,5) m show ?thesis
    by (simp add: result_cards_def cards_after_def)
qed

lemma whole_len: "len (whole xs) = length xs"
  by (simp add: whole_def)

lemma rev_Perm_spec: "Perm_spec rev_Perm"
  by (simp add: Perm_spec_def rev_Perm_def)

text \<open>Shuffling three cards with the generator that reverses.\<close>

theorem Shuffle_permutes_witness:
  "Perm_spec rev_Perm \<and>
   valid (heap_with [\<lparr>Suit = Spade, Rank = Ace\<rparr>, \<lparr>Suit = Heart, Rank = King\<rparr>,
                     \<lparr>Suit = Joker, Rank = 0\<rparr>])
     (whole [\<lparr>Suit = Spade, Rank = Ace\<rparr>, \<lparr>Suit = Heart, Rank = King\<rparr>,
             \<lparr>Suit = Joker, Rank = 0\<rparr>]) \<and>
   map_option length (result_cards (Shuffle rev_Perm
       (whole [\<lparr>Suit = Spade, Rank = Ace\<rparr>, \<lparr>Suit = Heart, Rank = King\<rparr>,
               \<lparr>Suit = Joker, Rank = 0\<rparr>])
       (heap_with [\<lparr>Suit = Spade, Rank = Ace\<rparr>, \<lparr>Suit = Heart, Rank = King\<rparr>,
                   \<lparr>Suit = Joker, Rank = 0\<rparr>]))) = Some 3 \<and>
   map_option mset (result_cards (Shuffle rev_Perm
       (whole [\<lparr>Suit = Spade, Rank = Ace\<rparr>, \<lparr>Suit = Heart, Rank = King\<rparr>,
               \<lparr>Suit = Joker, Rank = 0\<rparr>])
       (heap_with [\<lparr>Suit = Spade, Rank = Ace\<rparr>, \<lparr>Suit = Heart, Rank = King\<rparr>,
                   \<lparr>Suit = Joker, Rank = 0\<rparr>]))) =
     Some {#\<lparr>Suit = Spade, Rank = Ace\<rparr>, \<lparr>Suit = Heart, Rank = King\<rparr>,
            \<lparr>Suit = Joker, Rank = 0\<rparr>#} \<and>
   cards_after
       (whole [\<lparr>Suit = Spade, Rank = Ace\<rparr>, \<lparr>Suit = Heart, Rank = King\<rparr>,
               \<lparr>Suit = Joker, Rank = 0\<rparr>])
       (Shuffle rev_Perm
         (whole [\<lparr>Suit = Spade, Rank = Ace\<rparr>, \<lparr>Suit = Heart, Rank = King\<rparr>,
                 \<lparr>Suit = Joker, Rank = 0\<rparr>])
         (heap_with [\<lparr>Suit = Spade, Rank = Ace\<rparr>, \<lparr>Suit = Heart, Rank = King\<rparr>,
                     \<lparr>Suit = Joker, Rank = 0\<rparr>])) =
     Some [\<lparr>Suit = Spade, Rank = Ace\<rparr>, \<lparr>Suit = Heart, Rank = King\<rparr>,
           \<lparr>Suit = Joker, Rank = 0\<rparr>]"
  using Shuffle_permutes [where Perm = rev_Perm
      and h = "heap_with [\<lparr>Suit = Spade, Rank = Ace\<rparr>, \<lparr>Suit = Heart, Rank = King\<rparr>,
                     \<lparr>Suit = Joker, Rank = 0\<rparr>]"
      and cards = "whole [\<lparr>Suit = Spade, Rank = Ace\<rparr>, \<lparr>Suit = Heart, Rank = King\<rparr>,
             \<lparr>Suit = Joker, Rank = 0\<rparr>]"]
  by (simp add: rev_Perm_spec whole_valid whole_cards whole_len numeral_3_eq_3)

section \<open>What a transform does to its input\<close>
















section \<open>Jokers under the default order\<close>

text \<open>
  C10. A Joker of rank 0 and the King of Hearts both have absolute rank 52, so \<open>Less\<close>
  reports neither as less than the other, and \<open>DefaultSort\<close> (here with the insertion
  sort that \<^verbatim>\<open>sort.Slice\<close> runs on short slices) leaves the two in whichever order
  they came: the Joker is not sorted after the standard card.
\<close>

theorem Joker_ties_with_King_of_Hearts:
  "absRank \<lparr>Suit = Joker, Rank = 0\<rparr> = 52 \<and>
   absRank \<lparr>Suit = Heart, Rank = King\<rparr> = 52 \<and>
   Less (whole [\<lparr>Suit = Joker, Rank = 0\<rparr>, \<lparr>Suit = Heart, Rank = King\<rparr>])
     (heap_with [\<lparr>Suit = Joker, Rank = 0\<rparr>, \<lparr>Suit = Heart, Rank = King\<rparr>]) 0 1 = Some False \<and>
   Less (whole [\<lparr>Suit = Joker, Rank = 0\<rparr>, \<lparr>Suit = Heart, Rank = King\<rparr>])
     (heap_with [\<lparr>Suit = Joker, Rank = 0\<rparr>, \<lparr>Suit = Heart, Rank = King\<rparr>]) 1 0 = Some False \<and>
   result_cards (DefaultSort insertionSort
       (whole [\<lparr>Suit = Joker, Rank = 0\<rparr>, \<lparr>Suit = Heart, Rank = King\<rparr>])
       (heap_with [\<lparr>Suit = Joker, Rank = 0\<rparr>, \<lparr>Suit = Heart, Rank = King\<rparr>])) =
     Some [\<lparr>Suit = Joker, Rank = 0\<rparr>, \<lparr>Suit = Heart, Rank = King\<rparr>] \<and>
   result_cards (DefaultSort insertionSort
       (whole [\<lparr>Suit = Heart, Rank = King\<rparr>, \<lparr>Suit = Joker, Rank = 0\<rparr>])
       (heap_with [\<lparr>Suit = Heart, Rank = King\<rparr>, \<lparr>Suit = Joker, Rank = 0\<rparr>])) =
     Some [\<lparr>Suit = Heart, Rank = King\<rparr>, \<lparr>Suit = Joker, Rank = 0\<rparr>]"
proof -
  have a: "absRank \<lparr>Suit = Joker, Rank = 0\<rparr> = 52" "absRank \<lparr>Suit = Heart, Rank = King\<rparr> = 52"
    by (simp_all add: absRank_def maxRank_def King_def Joker_def Heart_def)
  have l: "Less (whole [x, y]) (heap_with [x, y]) 0 (Suc 0) = Some (absRank x < absRank y)"
    "Less (whole [x, y]) (heap_with [x, y]) (Suc 0) 0 = Some (absRank y < absRank x)" for x y
    by (simp_all add: Less_def index_def whole_def heap_with_def)
  show ?thesis
    by (simp add: a l DefaultSort_two result_cards_def whole_cards_any)
qed

end
